theory Spec2Isabelle
  imports Main "HOL-Library.Multiset"
begin

section \<open>Values, nodes and the heap\<close>

text \<open>
  The module \<^verbatim>\<open>binary_search_tree.js\<close> works on mutable \<^verbatim>\<open>Node\<close> objects
  that point at each other through \<^verbatim>\<open>left\<close>, \<^verbatim>\<open>right\<close> and \<^verbatim>\<open>parent\<close>.
  The embedding keeps that: a heap is the list of all node objects allocated so far, a
  reference is the index of an object in it, and every function that writes takes the
  heap and returns the new one. References only come from allocation, so a reference
  held by the program always indexes an allocated object.

  A value is \<^verbatim>\<open>undefined\<close>, \<^verbatim>\<open>null\<close>, a number or a reference to a node:
  the values the module itself passes around (strings and booleans are left out). The
  module applies only \<^verbatim>\<open><\<close>, \<^verbatim>\<open>></\<close>, \<^verbatim>\<open>===\<close> and truthiness to
  numbers, so a number is \<^verbatim>\<open>NaN\<close>, which is ordered with nothing and equal to
  nothing, or \<open>Num a\<close> with \<open>a\<close> in any linearly ordered type with a zero: the
  orderable numbers.

  A \<^verbatim>\<open>throw new TypeError()\<close>, and the TypeError the engine raises when a
  property of \<^verbatim>\<open>undefined\<close> or \<^verbatim>\<open>null\<close> is read or written, is the
  error value; an error result carries the heap as it was when the error was raised.
  A loop or recursion that walks the heap is a partial function: \<open>None\<close> is
  "does not return" (a cyclic heap). The depth of the call stack is not bounded.
\<close>

datatype error = TypeError

datatype 'a val = Undefined | Null | NaN | Num 'a | Ref nat

record 'a node =
  key :: "'a val"
  left :: "'a val"
  right :: "'a val"
  parent :: "'a val"

type_synonym 'a heap = "'a node list"

text \<open>\<^verbatim>\<open>typeof v\<close>, and the three tests of \<^verbatim>\<open>utils.js\<close>. An array argument and a
  callback argument are not values of the tree, so each has a type of its own next to
  the value that is neither.\<close>

fun typeof :: "'a val \<Rightarrow> string" where
  "typeof Undefined = ''undefined''"
| "typeof Null = ''object''"
| "typeof NaN = ''number''"
| "typeof (Num n) = ''number''"
| "typeof (Ref a) = ''object''"

definition isNumber :: "'a val \<Rightarrow> bool" where
  "isNumber v = (typeof v = ''number'')"

datatype 'a array_arg = Array "'a val list" | NotArray "'a val"

fun isArray :: "'a array_arg \<Rightarrow> bool" where
  "isArray (Array xs) = True"
| "isArray (NotArray v) = False"

datatype ('a, 's) callback = Function "'a val \<Rightarrow> 's \<Rightarrow> 's" | NotFunction "'a val"

fun isFunction :: "('a, 's) callback \<Rightarrow> bool" where
  "isFunction (Function f) = True"
| "isFunction (NotFunction v) = False"

text \<open>The elements of an array argument (\<^verbatim>\<open>X.length\<close> is their number,
  \<^verbatim>\<open>X.shift()\<close> takes the first off), and the call \<^verbatim>\<open>fn(k)\<close>, which raises
  when \<^verbatim>\<open>fn\<close> is not a function.\<close>

fun elements :: "'a array_arg \<Rightarrow> 'a val list" where
  "elements (Array xs) = xs"
| "elements (NotArray v) = []"

fun call :: "('a, 's) callback \<Rightarrow> 'a val \<Rightarrow> 's \<Rightarrow> error + 's" where
  "call (Function f) k s = Inr (f k s)"
| "call (NotFunction v) k s = Inl TypeError"

text \<open>Truthiness (\<^verbatim>\<open>if (T)\<close>, \<^verbatim>\<open>!T\<close>), the conversion to a number that
  \<^verbatim>\<open><\<close> applies to its operands (\<open>None\<close> is NaN), the comparisons and strict
  equality.\<close>

fun truthy :: "'a::zero val \<Rightarrow> bool" where
  "truthy Undefined = False"
| "truthy Null = False"
| "truthy NaN = False"
| "truthy (Num n) = (n \<noteq> 0)"
| "truthy (Ref a) = True"

fun ToNumber :: "'a::zero val \<Rightarrow> 'a option" where
  "ToNumber Undefined = None"
| "ToNumber Null = Some 0"
| "ToNumber NaN = None"
| "ToNumber (Num n) = Some n"
| "ToNumber (Ref a) = None"

definition js_lt :: "'a::{linorder,zero} val \<Rightarrow> 'a val \<Rightarrow> bool" where
  "js_lt x y = (case ToNumber x of None \<Rightarrow> False
                | Some a \<Rightarrow> (case ToNumber y of None \<Rightarrow> False | Some b \<Rightarrow> a < b))"

definition js_gt :: "'a::{linorder,zero} val \<Rightarrow> 'a val \<Rightarrow> bool" where
  "js_gt x y = js_lt y x"

fun strict_eq :: "'a val \<Rightarrow> 'a val \<Rightarrow> bool" where
  "strict_eq Undefined y = (case y of Undefined \<Rightarrow> True | _ \<Rightarrow> False)"
| "strict_eq Null y = (case y of Null \<Rightarrow> True | _ \<Rightarrow> False)"
| "strict_eq NaN y = False"
| "strict_eq (Num a) y = (case y of Num b \<Rightarrow> a = b | _ \<Rightarrow> False)"
| "strict_eq (Ref a) y = (case y of Ref b \<Rightarrow> a = b | _ \<Rightarrow> False)"

text \<open>Reading a property \<^verbatim>\<open>v.f\<close> and writing one \<^verbatim>\<open>v.f = w\<close> (the file is in
  strict mode). A number (\<^verbatim>\<open>NaN\<close> too) has none of the four properties, so
  reading one gives \<^verbatim>\<open>undefined\<close> and writing one raises; \<^verbatim>\<open>undefined\<close>
  and \<^verbatim>\<open>null\<close> raise on both.\<close>

fun getp :: "('a node \<Rightarrow> 'a val) \<Rightarrow> 'a heap \<Rightarrow> 'a val \<Rightarrow> error + 'a val" where
  "getp f h (Ref a) = Inr (f (h ! a))"
| "getp f h (Num n) = Inr Undefined"
| "getp f h NaN = Inr Undefined"
| "getp f h Null = Inl TypeError"
| "getp f h Undefined = Inl TypeError"

fun setp :: "(('a val \<Rightarrow> 'a val) \<Rightarrow> 'a node \<Rightarrow> 'a node) \<Rightarrow> 'a heap \<Rightarrow> 'a val \<Rightarrow> 'a val
    \<Rightarrow> error + 'a heap" where
  "setp upd h (Ref a) w = Inr (h[a := upd (\<lambda>old. w) (h ! a)])"
| "setp upd h (Num n) w = Inl TypeError"
| "setp upd h NaN w = Inl TypeError"
| "setp upd h Null w = Inl TypeError"
| "setp upd h Undefined w = Inl TypeError"

section \<open>The functions of the module\<close>

text \<open>\<^verbatim>\<open>new Node(key, left, right)\<close>: the type test, then the new object, allocated
  at the end of the heap. An argument left out is \<^verbatim>\<open>undefined\<close>.\<close>

definition new_Node :: "'a::zero val \<Rightarrow> 'a val \<Rightarrow> 'a val \<Rightarrow> 'a heap \<Rightarrow> (error + 'a val) \<times> 'a heap" where
  "new_Node k l r h =
     (if \<not> isNumber k then (Inl TypeError, h)
      else (Inr (Ref (length h)),
            h @ [\<lparr>key = k,
                  left = (if truthy l then l else Null),
                  right = (if truthy r then r else Null),
                  parent = Null\<rparr>]))"

text \<open>\<^verbatim>\<open>insert(T, k)\<close>. The loop returns the last node visited (\<^verbatim>\<open>parent\<close>).\<close>

partial_function (option) insert_loop ::
    "'a::{linorder,zero} heap \<Rightarrow> 'a val \<Rightarrow> 'a val \<Rightarrow> 'a val \<Rightarrow> (error + 'a val) option" where
  "insert_loop h T par k =
     (if \<not> strict_eq T Null then
        (case getp key h T of Inl e \<Rightarrow> Some (Inl e)
         | Inr tk \<Rightarrow>
             if js_lt k tk
             then (case getp left h T of Inl e \<Rightarrow> Some (Inl e) | Inr l \<Rightarrow> insert_loop h l T k)
             else (case getp right h T of Inl e \<Rightarrow> Some (Inl e) | Inr r \<Rightarrow> insert_loop h r T k))
      else Some (Inr par))"

declare insert_loop.simps [code]

definition insert_bst ::
    "'a::{linorder,zero} val \<Rightarrow> 'a val \<Rightarrow> 'a heap \<Rightarrow> ((error + 'a val) \<times> 'a heap) option" where
  "insert_bst T k h =
     (case new_Node k Undefined Undefined h of
        (Inl e, h1) \<Rightarrow> Some (Inl e, h1)
      | (Inr x, h1) \<Rightarrow>
          (case insert_loop h1 T Null k of
             None \<Rightarrow> None
           | Some (Inl e) \<Rightarrow> Some (Inl e, h1)
           | Some (Inr par) \<Rightarrow>
               (case setp parent_update h1 x par of
                  Inl e \<Rightarrow> Some (Inl e, h1)
                | Inr h2 \<Rightarrow>
                    if strict_eq par Null then Some (Inr x, h2)
                    else (case getp key h2 par of
                            Inl e \<Rightarrow> Some (Inl e, h2)
                          | Inr pk \<Rightarrow>
                              if js_lt k pk
                              then (case setp left_update h2 par x of
                                      Inl e \<Rightarrow> Some (Inl e, h2)
                                    | Inr h3 \<Rightarrow> Some (Inr T, h3))
                              else (case setp right_update h2 par x of
                                      Inl e \<Rightarrow> Some (Inl e, h2)
                                    | Inr h3 \<Rightarrow> Some (Inr T, h3))))))"

text \<open>A caller that inserts keys one after the other, \<^verbatim>\<open>T = insert(T, k)\<close> for each
  \<open>k\<close> from left to right: the left fold of \<open>insert\<close>. It stops at the first
  error, as the exception would.\<close>

fun insert_each ::
    "'a::{linorder,zero} val \<Rightarrow> 'a val list \<Rightarrow> 'a heap \<Rightarrow> ((error + 'a val) \<times> 'a heap) option" where
  "insert_each T [] h = Some (Inr T, h)"
| "insert_each T (k # ks) h =
     (case insert_bst T k h of
        None \<Rightarrow> None
      | Some (Inl e, h1) \<Rightarrow> Some (Inl e, h1)
      | Some (Inr T1, h1) \<Rightarrow> insert_each T1 ks h1)"

text \<open>\<^verbatim>\<open>inOrderWalk(T, fn)\<close>. The callback works on a state of its own (what it
  accumulates); the test of \<^verbatim>\<open>fn\<close> is made at every call.\<close>

partial_function (option) inOrderWalk ::
    "'a::{linorder,zero} heap \<Rightarrow> 'a val \<Rightarrow> ('a, 's) callback \<Rightarrow> 's \<Rightarrow> ((error + unit) \<times> 's) option" where
  "inOrderWalk h T fn s =
     (if \<not> isFunction fn then Some (Inl TypeError, s)
      else if truthy T then
        (case getp left h T of Inl e \<Rightarrow> Some (Inl e, s)
         | Inr l \<Rightarrow>
             Option.bind (inOrderWalk h l fn s) (\<lambda>(r1, s1).
               (case r1 of Inl e \<Rightarrow> Some (Inl e, s1)
                | Inr u \<Rightarrow>
                    (case getp key h T of Inl e \<Rightarrow> Some (Inl e, s1)
                     | Inr k \<Rightarrow>
                         (case call fn k s1 of Inl e \<Rightarrow> Some (Inl e, s1)
                          | Inr s2 \<Rightarrow>
                              (case getp right h T of Inl e \<Rightarrow> Some (Inl e, s2)
                               | Inr r \<Rightarrow> inOrderWalk h r fn s2))))))
      else Some (Inr (), s))"

declare inOrderWalk.simps [code]

text \<open>\<^verbatim>\<open>toList(T)\<close>.\<close>

partial_function (option) toList ::
    "'a::{linorder,zero} heap \<Rightarrow> 'a val \<Rightarrow> (error + 'a val list) option" where
  "toList h T =
     (if \<not> truthy T then Some (Inr [])
      else (case getp left h T of Inl e \<Rightarrow> Some (Inl e)
            | Inr l \<Rightarrow>
                Option.bind (toList h l) (\<lambda>r1.
                  (case r1 of Inl e \<Rightarrow> Some (Inl e)
                   | Inr ls \<Rightarrow>
                       (case getp key h T of Inl e \<Rightarrow> Some (Inl e)
                        | Inr k \<Rightarrow>
                            (case getp right h T of Inl e \<Rightarrow> Some (Inl e)
                             | Inr r \<Rightarrow>
                                 Option.bind (toList h r) (\<lambda>r2.
                                   (case r2 of Inl e \<Rightarrow> Some (Inl e)
                                    | Inr rs \<Rightarrow> Some (Inr (ls @ [k] @ rs))))))))))"

declare toList.simps [code]

text \<open>\<^verbatim>\<open>fromList(X)\<close>. The array is the caller's object and \<^verbatim>\<open>X.shift()\<close> removes
  its first element, so the array is part of the state: the function returns the result,
  the array as it leaves it, and the heap. The recursive call runs on the shifted array
  and comes before the \<^verbatim>\<open>insert\<close> of the element taken off.\<close>

function fromList ::
    "'a::{linorder,zero} array_arg \<Rightarrow> 'a heap \<Rightarrow> ((error + 'a val) \<times> 'a array_arg \<times> 'a heap) option" where
  "fromList X h =
     (if \<not> isArray X then Some (Inl TypeError, X, h)
      else if length (elements X) = 0 then Some (Inr Null, X, h)
      else
        (case fromList (Array (tl (elements X))) h of
           None \<Rightarrow> None
         | Some (Inl e, X1, h1) \<Rightarrow> Some (Inl e, X1, h1)
         | Some (Inr T, X1, h1) \<Rightarrow>
             (case insert_bst T (hd (elements X)) h1 of
                None \<Rightarrow> None
              | Some (res, h2) \<Rightarrow> Some (res, X1, h2))))"
  by pat_completeness auto
termination
  by (relation "measure (\<lambda>(X, h). length (elements X))") auto

declare fromList.simps [simp del]

text \<open>\<^verbatim>\<open>lookup(T, x)\<close> and \<^verbatim>\<open>search(T, x)\<close>.\<close>

partial_function (option) lookup ::
    "'a::{linorder,zero} heap \<Rightarrow> 'a val \<Rightarrow> 'a val \<Rightarrow> (error + 'a val) option" where
  "lookup h T x =
     (if \<not> truthy T then Some (Inr Null)
      else (case getp key h T of Inl e \<Rightarrow> Some (Inl e)
            | Inr k \<Rightarrow>
                if strict_eq k x then Some (Inr T)
                else if js_lt x k
                then (case getp left h T of Inl e \<Rightarrow> Some (Inl e) | Inr l \<Rightarrow> lookup h l x)
                else (case getp right h T of Inl e \<Rightarrow> Some (Inl e) | Inr r \<Rightarrow> lookup h r x)))"

declare lookup.simps [code]

partial_function (option) search ::
    "'a::{linorder,zero} heap \<Rightarrow> 'a val \<Rightarrow> 'a val \<Rightarrow> (error + 'a val) option" where
  "search h T x =
     (if truthy T then
        (case getp key h T of Inl e \<Rightarrow> Some (Inl e)
         | Inr k \<Rightarrow>
             if \<not> strict_eq k x then
               (if js_lt x k
                then (case getp left h T of Inl e \<Rightarrow> Some (Inl e) | Inr l \<Rightarrow> search h l x)
                else (case getp right h T of Inl e \<Rightarrow> Some (Inl e) | Inr r \<Rightarrow> search h r x))
             else Some (Inr T))
      else Some (Inr T))"

declare search.simps [code]

text \<open>\<^verbatim>\<open>min(T)\<close> and \<^verbatim>\<open>max(T)\<close>: the result is the key, \<^verbatim>\<open>T.key\<close>, or
  \<^verbatim>\<open>null\<close>.\<close>

partial_function (option) min_bst ::
    "'a::{linorder,zero} heap \<Rightarrow> 'a val \<Rightarrow> (error + 'a val) option" where
  "min_bst h T =
     (if \<not> truthy T then Some (Inr Null)
      else (case getp left h T of Inl e \<Rightarrow> Some (Inl e)
            | Inr l \<Rightarrow> if \<not> truthy l then Some (getp key h T) else min_bst h l))"

declare min_bst.simps [code]

partial_function (option) max_bst ::
    "'a::{linorder,zero} heap \<Rightarrow> 'a val \<Rightarrow> (error + 'a val) option" where
  "max_bst h T =
     (if \<not> truthy T then Some (Inr Null)
      else (case getp right h T of Inl e \<Rightarrow> Some (Inl e)
            | Inr r \<Rightarrow> if \<not> truthy r then Some (getp key h T) else max_bst h r))"

declare max_bst.simps [code]

text \<open>\<^verbatim>\<open>succ(x)\<close> and \<^verbatim>\<open>pred(x)\<close>. The loop carries \<^verbatim>\<open>x\<close> and \<^verbatim>\<open>p\<close>.\<close>

partial_function (option) succ_loop ::
    "'a::{linorder,zero} heap \<Rightarrow> 'a val \<Rightarrow> 'a val \<Rightarrow> (error + 'a val) option" where
  "succ_loop h x p =
     (if truthy p then
        (case getp right h p of Inl e \<Rightarrow> Some (Inl e)
         | Inr pr \<Rightarrow>
             if strict_eq x pr
             then (case getp parent h p of Inl e \<Rightarrow> Some (Inl e) | Inr pp \<Rightarrow> succ_loop h p pp)
             else Some (Inr p))
      else Some (Inr p))"

declare succ_loop.simps [code]

definition succ :: "'a::{linorder,zero} heap \<Rightarrow> 'a val \<Rightarrow> (error + 'a val) option" where
  "succ h x =
     (case getp right h x of Inl e \<Rightarrow> Some (Inl e)
      | Inr r \<Rightarrow>
          if truthy r then min_bst h r
          else (case getp parent h x of Inl e \<Rightarrow> Some (Inl e) | Inr p \<Rightarrow> succ_loop h x p))"

partial_function (option) pred_loop ::
    "'a::{linorder,zero} heap \<Rightarrow> 'a val \<Rightarrow> 'a val \<Rightarrow> (error + 'a val) option" where
  "pred_loop h x p =
     (if truthy p then
        (case getp left h p of Inl e \<Rightarrow> Some (Inl e)
         | Inr pl \<Rightarrow>
             if strict_eq x pl
             then (case getp parent h p of Inl e \<Rightarrow> Some (Inl e) | Inr pp \<Rightarrow> pred_loop h p pp)
             else Some (Inr p))
      else Some (Inr p))"

declare pred_loop.simps [code]

definition pred :: "'a::{linorder,zero} heap \<Rightarrow> 'a val \<Rightarrow> (error + 'a val) option" where
  "pred h x =
     (case getp left h x of Inl e \<Rightarrow> Some (Inl e)
      | Inr l \<Rightarrow>
          if truthy l then max_bst h l
          else (case getp parent h x of Inl e \<Rightarrow> Some (Inl e) | Inr p \<Rightarrow> pred_loop h x p))"

text \<open>\<^verbatim>\<open>deleteValue(T, x)\<close>. \<^verbatim>\<open>T.key\<close>, \<^verbatim>\<open>T.left\<close> and
  \<^verbatim>\<open>T.right\<close> are read once where the source reads them again with nothing
  written in between. The arguments of each \<^verbatim>\<open>new Node(...)\<close> are evaluated from
  left to right (so \<^verbatim>\<open>T.right\<close> after the recursive call in the first case), and
  \<^verbatim>\<open>min(T.right)\<close> is called twice, as in the source.\<close>

partial_function (option) deleteValue ::
    "'a::{linorder,zero} val \<Rightarrow> 'a val \<Rightarrow> 'a heap \<Rightarrow> ((error + 'a val) \<times> 'a heap) option" where
  "deleteValue T x h =
     (if \<not> truthy T then Some (Inr Null, h)
      else (case getp key h T of Inl e \<Rightarrow> Some (Inl e, h)
            | Inr k \<Rightarrow>
        if js_lt x k then
          (case getp left h T of Inl e \<Rightarrow> Some (Inl e, h)
           | Inr l \<Rightarrow>
               Option.bind (deleteValue l x h) (\<lambda>(r1, h1).
                 (case r1 of Inl e \<Rightarrow> Some (Inl e, h1)
                  | Inr l1 \<Rightarrow>
                      (case getp right h1 T of Inl e \<Rightarrow> Some (Inl e, h1)
                       | Inr r \<Rightarrow> Some (new_Node k l1 r h1)))))
        else if js_gt x k then
          (case getp left h T of Inl e \<Rightarrow> Some (Inl e, h)
           | Inr l \<Rightarrow>
          (case getp right h T of Inl e \<Rightarrow> Some (Inl e, h)
           | Inr r \<Rightarrow>
               Option.bind (deleteValue r x h) (\<lambda>(r1, h1).
                 (case r1 of Inl e \<Rightarrow> Some (Inl e, h1)
                  | Inr r1 \<Rightarrow> Some (new_Node k l r1 h1)))))
        else
          (case getp left h T of Inl e \<Rightarrow> Some (Inl e, h)
           | Inr l \<Rightarrow>
          (case getp right h T of Inl e \<Rightarrow> Some (Inl e, h)
           | Inr r \<Rightarrow>
             if strict_eq x k \<and> \<not> truthy l then Some (Inr r, h)
             else if strict_eq x k \<and> \<not> truthy r then Some (Inr l, h)
             else
               Option.bind (min_bst h r) (\<lambda>m1.
                 (case m1 of Inl e \<Rightarrow> Some (Inl e, h)
                  | Inr y1 \<Rightarrow>
                      Option.bind (min_bst h r) (\<lambda>m2.
                        (case m2 of Inl e \<Rightarrow> Some (Inl e, h)
                         | Inr y2 \<Rightarrow>
                             Option.bind (deleteValue r y2 h) (\<lambda>(r1, h1).
                               (case r1 of Inl e \<Rightarrow> Some (Inl e, h1)
                                | Inr r1 \<Rightarrow> Some (new_Node y1 l r1 h1)))))))))))"

declare deleteValue.simps [code]

text \<open>\<^verbatim>\<open>deleteNode(T, x)\<close>. \<open>deleteNode_splice\<close> is the tail of the function, the
  statements after the \<^verbatim>\<open>if\<close> chain: \<open>x1\<close> is the node to delete, \<open>c\<close> the
  child that \<^verbatim>\<open>x\<close> was set to.\<close>

definition deleteNode_splice ::
    "'a::{linorder,zero} val \<Rightarrow> 'a val \<Rightarrow> 'a val \<Rightarrow> 'a val \<Rightarrow> 'a heap \<Rightarrow> (error + 'a val) \<times> 'a heap" where
  "deleteNode_splice T x1 c par h =
     (case (if truthy c then setp parent_update h c par else Inr h) of
        Inl e \<Rightarrow> (Inl e, h)
      | Inr h1 \<Rightarrow>
          if \<not> truthy par then (Inr c, h1)
          else (case getp left h1 par of
                  Inl e \<Rightarrow> (Inl e, h1)
                | Inr pl \<Rightarrow>
                    if strict_eq pl x1
                    then (case setp left_update h1 par c of
                            Inl e \<Rightarrow> (Inl e, h1) | Inr h2 \<Rightarrow> (Inr T, h2))
                    else (case setp right_update h1 par c of
                            Inl e \<Rightarrow> (Inl e, h1) | Inr h2 \<Rightarrow> (Inr T, h2))))"

definition deleteNode ::
    "'a::{linorder,zero} val \<Rightarrow> 'a val \<Rightarrow> 'a heap \<Rightarrow> ((error + 'a val) \<times> 'a heap) option" where
  "deleteNode T x h =
     (if \<not> truthy x then Some (Inr T, h)
      else (case getp parent h x of Inl e \<Rightarrow> Some (Inl e, h)
            | Inr par \<Rightarrow>
      (case getp left h x of Inl e \<Rightarrow> Some (Inl e, h)
            | Inr xl \<Rightarrow>
      (case getp right h x of Inl e \<Rightarrow> Some (Inl e, h)
            | Inr xr \<Rightarrow>
        if \<not> truthy xl then Some (deleteNode_splice T x xr par h)
        else if \<not> truthy xr then Some (deleteNode_splice T x xl par h)
        else
          (case min_bst h xr of
             None \<Rightarrow> None
           | Some (Inl e) \<Rightarrow> Some (Inl e, h)
           | Some (Inr y) \<Rightarrow>
               (case getp key h y of Inl e \<Rightarrow> Some (Inl e, h)
                | Inr yk \<Rightarrow>
               (case setp key_update h x yk of Inl e \<Rightarrow> Some (Inl e, h)
                | Inr h1 \<Rightarrow>
               (case getp parent h1 y of Inl e \<Rightarrow> Some (Inl e, h1)
                | Inr yp \<Rightarrow>
               (case getp right h1 y of Inl e \<Rightarrow> Some (Inl e, h1)
                | Inr yr \<Rightarrow>
                   if \<not> strict_eq yp x
                   then (case setp left_update h1 yp yr of
                           Inl e \<Rightarrow> Some (Inl e, h1) | Inr h2 \<Rightarrow> Some (Inr T, h2))
                   else (case setp right_update h1 x yr of
                           Inl e \<Rightarrow> Some (Inl e, h1) | Inr h2 \<Rightarrow> Some (Inr T, h2)))))))))))"

section \<open>Trees in the heap\<close>

datatype 'a shape = Tip | Fork "'a shape" nat 'a "'a shape"

fun keys :: "'a shape \<Rightarrow> 'a list" where
  "keys Tip = []"
| "keys (Fork l a k r) = keys l @ [k] @ keys r"

fun addrs :: "'a shape \<Rightarrow> nat list" where
  "addrs Tip = []"
| "addrs (Fork l a k r) = addrs l @ [a] @ addrs r"

fun heap_tree :: "'a heap \<Rightarrow> 'a val \<Rightarrow> 'a shape \<Rightarrow> bool" where
  "heap_tree h v Tip = (v = Null)"
| "heap_tree h v (Fork l a k r) =
     (v = Ref a \<and> a < length h \<and> key (h ! a) = Num k
      \<and> heap_tree h (left (h ! a)) l \<and> heap_tree h (right (h ! a)) r)"

fun bst :: "'a::linorder shape \<Rightarrow> bool" where
  "bst Tip = True"
| "bst (Fork l a k r) =
     (bst l \<and> bst r \<and> list_all (\<lambda>y. y < k) (keys l) \<and> list_all (\<lambda>y. k < y) (keys r))"

fun bst_le :: "'a::linorder shape \<Rightarrow> bool" where
  "bst_le Tip = True"
| "bst_le (Fork l a k r) =
     (bst_le l \<and> bst_le r \<and> list_all (\<lambda>y. y < k) (keys l) \<and> list_all (\<lambda>y. k \<le> y) (keys r))"

fun ins :: "nat \<Rightarrow> 'a::linorder \<Rightarrow> 'a shape \<Rightarrow> 'a shape" where
  "ins n k Tip = Fork Tip n k Tip"
| "ins n k (Fork l a x r) =
     (if k < x then Fork (ins n k l) a x r else Fork l a x (ins n k r))"

text \<open>The same for a tree whose keys are any values (a key \<^verbatim>\<open>NaN\<close> is a number
  for the constructor): \<open>heap_struct\<close>, the tree \<open>vins n k s\<close> after \<open>insert\<close> of
  \<open>k\<close> at the new reference \<open>n\<close>, the node \<open>vlast_visited k s\<close> the loop ends at, and
  the assignment \<open>attach\<close> that links the new node below it.\<close>

fun heap_struct :: "'a heap \<Rightarrow> 'a val \<Rightarrow> 'a val shape \<Rightarrow> bool" where
  "heap_struct h v Tip = (v = Null)"
| "heap_struct h v (Fork l a k r) =
     (v = Ref a \<and> a < length h \<and> key (h ! a) = k
      \<and> heap_struct h (left (h ! a)) l \<and> heap_struct h (right (h ! a)) r)"

fun vins :: "nat \<Rightarrow> 'a::{linorder,zero} val \<Rightarrow> 'a val shape \<Rightarrow> 'a val shape" where
  "vins n k Tip = Fork Tip n k Tip"
| "vins n k (Fork l a x r) =
     (if js_lt k x then Fork (vins n k l) a x r else Fork l a x (vins n k r))"

fun vlast_visited :: "'a::{linorder,zero} val \<Rightarrow> 'a val shape \<Rightarrow> nat" where
  "vlast_visited k Tip = 0"
| "vlast_visited k (Fork l a x r) =
     (if js_lt k x then (if l = Tip then a else vlast_visited k l)
      else (if r = Tip then a else vlast_visited k r))"

definition attach :: "'a::{linorder,zero} heap \<Rightarrow> nat \<Rightarrow> nat \<Rightarrow> 'a val \<Rightarrow> 'a heap" where
  "attach h p n k =
     (if js_lt k (key (h ! p)) then h[p := left_update (\<lambda>old. Ref n) (h ! p)]
      else h[p := right_update (\<lambda>old. Ref n) (h ! p)])"

definition tree_inv :: "'a::linorder heap \<Rightarrow> 'a val \<Rightarrow> 'a shape \<Rightarrow> bool" where
  "tree_inv h T t = (heap_tree h T t \<and> distinct (addrs t) \<and> bst_le t)"

definition example_keys :: "int list" where
  "example_keys = [4, 3, 8, 1, 7, 16, 2, 10, 9, 14]"

definition example_heap :: "int heap" where
  "example_heap =
     [\<lparr>key = Num 4, left = Ref 1, right = Ref 2, parent = Null\<rparr>,
      \<lparr>key = Num 3, left = Ref 3, right = Null, parent = Ref 0\<rparr>,
      \<lparr>key = Num 8, left = Ref 4, right = Ref 5, parent = Ref 0\<rparr>,
      \<lparr>key = Num 1, left = Null, right = Ref 6, parent = Ref 1\<rparr>,
      \<lparr>key = Num 7, left = Null, right = Null, parent = Ref 2\<rparr>,
      \<lparr>key = Num 16, left = Ref 7, right = Null, parent = Ref 2\<rparr>,
      \<lparr>key = Num 2, left = Null, right = Null, parent = Ref 3\<rparr>,
      \<lparr>key = Num 10, left = Ref 8, right = Ref 9, parent = Ref 5\<rparr>,
      \<lparr>key = Num 9, left = Null, right = Null, parent = Ref 7\<rparr>,
      \<lparr>key = Num 14, left = Null, right = Null, parent = Ref 7\<rparr>]"

definition example_shape :: "int shape" where
  "example_shape =
     Fork (Fork (Fork Tip 3 1 (Fork Tip 6 2 Tip)) 1 3 Tip) 0 4
          (Fork (Fork Tip 4 7 Tip) 2 8
                (Fork (Fork (Fork Tip 8 9 Tip) 7 10 (Fork Tip 9 14 Tip)) 5 16 Tip))"


section \<open>Properties\<close>

subsection \<open>Values\<close>

lemma strict_eq_iff [simp]: "strict_eq x y = (x = y \<and> x \<noteq> NaN)"
  by (cases x; cases y) auto

lemma js_lt_Num [simp]: "js_lt (Num a) (Num b) = (a < b)"
  by (simp add: js_lt_def)

lemma js_gt_Num [simp]: "js_gt (Num a) (Num b) = (b < a)"
  by (simp add: js_gt_def)

lemma isNumber_Num [simp]: "isNumber (Num k)"
  by (simp add: isNumber_def)

lemma isNumber_NaN [simp]: "isNumber NaN"
  by (simp add: isNumber_def)

lemma isNumber_iff: "isNumber v = (v = NaN \<or> (\<exists>k. v = Num k))"
  by (cases v) (auto simp: isNumber_def)


subsection \<open>The tree a reference stands for\<close>

text \<open>\<open>heap_tree h v t\<close>: in the heap \<open>h\<close> the value \<open>v\<close> is the root of the finite tree
  \<open>t\<close>, whose nodes carry their reference and their key. Appending to the heap, and
  writing to a node outside the tree, leave the tree as it is.\<close>

lemma heap_tree_Null [simp]: "heap_tree h Null t = (t = Tip)"
  by (cases t) auto

lemma heap_tree_Ref: "heap_tree h (Ref a) t =
  (\<exists>l k r. t = Fork l a k r \<and> a < length h \<and> key (h ! a) = Num k
      \<and> heap_tree h (left (h ! a)) l \<and> heap_tree h (right (h ! a)) r)"
  by (cases t) auto

lemma heap_tree_truthy: "heap_tree h v t \<Longrightarrow> truthy v = (t \<noteq> Tip)"
  by (cases t) auto

lemma heap_tree_is_ptr: "heap_tree h v t \<Longrightarrow> (if truthy v then v else Null) = v"
  by (cases t) auto

lemma heap_tree_addrs: "heap_tree h v t \<Longrightarrow> a \<in> set (addrs t) \<Longrightarrow> a < length h"
  by (induction t arbitrary: v) auto

lemma heap_tree_keys:
  "heap_tree h T t \<Longrightarrow> a \<in> set (addrs t) \<Longrightarrow> key (h ! a) \<in> Num ` set (keys t)"
proof (induction t arbitrary: T)
  case Tip
  then show ?case by simp
next
  case (Fork l b k r)
  from Fork.prems(1) have hl: "heap_tree h (left (h ! b)) l"
    and hr: "heap_tree h (right (h ! b)) r" and kb: "key (h ! b) = Num k" by auto
  from Fork.prems(2) consider "a \<in> set (addrs l)" | "a = b" | "a \<in> set (addrs r)" by auto
  then show ?case
  proof cases
    case 1
    then show ?thesis using Fork.IH(1)[OF hl] by auto
  next
    case 2
    then show ?thesis using kb by simp
  next
    case 3
    then show ?thesis using Fork.IH(2)[OF hr] by auto
  qed
qed

lemma heap_tree_cong:
  "(\<And>a. a \<in> set (addrs t) \<Longrightarrow> a < length h' \<and> h' ! a = h ! a) \<Longrightarrow> heap_tree h v t \<Longrightarrow> heap_tree h' v t"
  by (induction t arbitrary: v) auto

lemma heap_tree_append: "heap_tree h v t \<Longrightarrow> heap_tree (h @ h2) v t"
  by (rule heap_tree_cong[where h=h]) (auto simp: nth_append dest: heap_tree_addrs)

lemma heap_tree_update:
  assumes "heap_tree h v t" and "a \<notin> set (addrs t)"
  shows "heap_tree (h[a := nd]) v t"
proof (rule heap_tree_cong[OF _ assms(1)])
  fix b assume "b \<in> set (addrs t)"
  then have "b \<noteq> a" and "b < length h"
    using assms(2) heap_tree_addrs[OF assms(1)] by auto
  then show "b < length (h[a := nd]) \<and> h[a := nd] ! b = h ! b"
    by simp
qed

lemma heap_struct_Null [simp]: "heap_struct h Null s = (s = Tip)"
  by (cases s) auto

lemma heap_struct_addrs: "heap_struct h v s \<Longrightarrow> a \<in> set (addrs s) \<Longrightarrow> a < length h"
  by (induction s arbitrary: v) auto

lemma heap_struct_cong:
  "(\<And>a. a \<in> set (addrs s) \<Longrightarrow> a < length h' \<and> h' ! a = h ! a) \<Longrightarrow> heap_struct h v s \<Longrightarrow> heap_struct h' v s"
  by (induction s arbitrary: v) auto

lemma heap_struct_append: "heap_struct h v s \<Longrightarrow> heap_struct (h @ h2) v s"
  by (rule heap_struct_cong[where h=h]) (auto simp: nth_append dest: heap_struct_addrs)

lemma heap_struct_update:
  assumes "heap_struct h v s" and "a \<notin> set (addrs s)"
  shows "heap_struct (h[a := nd]) v s"
proof (rule heap_struct_cong[OF _ assms(1)])
  fix b assume "b \<in> set (addrs s)"
  then have "b \<noteq> a" and "b < length h"
    using assms(2) heap_struct_addrs[OF assms(1)] by auto
  then show "b < length (h[a := nd]) \<and> h[a := nd] ! b = h ! b"
    by simp
qed

lemma heap_tree_struct: "heap_tree h v t = heap_struct h v (map_shape Num t)"
  by (induction t arbitrary: v) auto

lemma addrs_map_shape [simp]: "addrs (map_shape f t) = addrs t"
  by (induction t) auto

lemma map_shape_Tip_iff [simp]: "(map_shape f t = Tip) = (t = Tip)"
  by (cases t) auto


subsection \<open>Traversal\<close>

lemma toList_heap_tree:
  "heap_tree h T t \<Longrightarrow> toList h T = Some (Inr (map Num (keys t)))"
proof (induction t arbitrary: T)
  case Tip
  then show ?case by (subst toList.simps) simp
next
  case (Fork l a k r)
  then show ?case by (subst toList.simps) simp
qed

lemma inOrderWalk_heap_tree:
  "heap_tree h T t \<Longrightarrow> inOrderWalk h T (Function f) s = Some (Inr (), fold f (map Num (keys t)) s)"
proof (induction t arbitrary: T s)
  case Tip
  then show ?case by (subst inOrderWalk.simps) simp
next
  case (Fork l a k r)
  then show ?case by (subst inOrderWalk.simps) simp
qed

lemma fold_snoc: "fold (\<lambda>k acc. acc @ [k]) xs acc = acc @ xs"
  by (induction xs arbitrary: acc) auto


subsection \<open>The example tree\<close>

lemma example_heap_built:
  "insert_each Null (map Num example_keys) [] = Some (Inr (Ref 0), example_heap)"
  by code_simp

lemma example_heap_tree: "heap_tree example_heap (Ref 0) example_shape"
  by code_simp

lemma example_bst: "bst example_shape"
  by code_simp


subsection \<open>Looking up\<close>

lemma lookup_search:
  "heap_tree h T t \<Longrightarrow> lookup h T x = search h T x"
proof (induction t arbitrary: T)
  case Tip
  then show ?case by (subst lookup.simps, subst search.simps) simp
next
  case (Fork l a k r)
  then show ?case by (subst lookup.simps, subst search.simps) simp
qed

lemma lookup_result:
  "heap_tree h T t \<Longrightarrow>
   \<exists>r. lookup h T x = Some (Inr r)
     \<and> (r = Null \<or> (\<exists>a. r = Ref a \<and> a \<in> set (addrs t) \<and> key (h ! a) = x))"
proof (induction t arbitrary: T)
  case Tip
  then show ?case by (subst lookup.simps) simp
next
  case (Fork l a k r)
  from Fork.prems have T: "T = Ref a" and hl: "heap_tree h (left (h ! a)) l"
    and hr: "heap_tree h (right (h ! a)) r" and ka: "key (h ! a) = Num k" by auto
  from Fork.IH(1)[OF hl] Fork.IH(2)[OF hr] show ?case
    by (subst lookup.simps) (auto simp: T ka)
qed

lemma lookup_present:
  "heap_tree h T t \<Longrightarrow> bst_le t \<Longrightarrow> k \<in> set (keys t) \<Longrightarrow> lookup h T (Num k) \<noteq> Some (Inr Null)"
proof (induction t arbitrary: T)
  case Tip
  then show ?case by simp
next
  case (Fork l a x r)
  from Fork.prems have T: "T = Ref a" and hl: "heap_tree h (left (h ! a)) l"
    and hr: "heap_tree h (right (h ! a)) r" and ka: "key (h ! a) = Num x" by auto
  show ?case
  proof (cases "x = k")
    case True
    then show ?thesis by (subst lookup.simps) (simp add: T ka)
  next
    case ne: False
    show ?thesis
    proof (cases "k < x")
      case True
      then have "k \<in> set (keys l)" using Fork.prems(2,3) ne by (auto simp: list_all_iff)
      then have "lookup h (left (h ! a)) (Num k) \<noteq> Some (Inr Null)"
        using Fork.IH(1)[OF hl] Fork.prems(2) by simp
      then show ?thesis using True ne by (subst lookup.simps) (simp add: T ka)
    next
      case False
      then have "k \<in> set (keys r)" using Fork.prems(2,3) ne by (auto simp: list_all_iff)
      then have "lookup h (right (h ! a)) (Num k) \<noteq> Some (Inr Null)"
        using Fork.IH(2)[OF hr] Fork.prems(2) by simp
      then show ?thesis using False ne by (subst lookup.simps) (simp add: T ka)
    qed
  qed
qed

text \<open>
  \<^bold>\<open>C7\<close>. On every tree in the heap and for every value \<open>x\<close>, the recursive
  \<open>lookup\<close> and the loop \<open>search\<close> return the same result: a node of the tree
  whose key is \<open>x\<close>, or \<^verbatim>\<open>null\<close>; where the keys are ordered as \<open>insert\<close>
  leaves them (smaller keys left, others right) the result is \<^verbatim>\<open>null\<close> exactly
  when \<open>x\<close> is not a key of the tree. \<open>lookup\<close> on the empty tree returns
  \<^verbatim>\<open>null\<close>.
\<close>

theorem lookup_search_agree:
  assumes "heap_tree h T t"
  shows "lookup h T x = search h T x
    \<and> (\<exists>r. lookup h T x = Some (Inr r)
          \<and> (r = Null \<or> (\<exists>a. r = Ref a \<and> a \<in> set (addrs t) \<and> key (h ! a) = x))
          \<and> (bst_le t \<longrightarrow> (r = Null) = (x \<notin> Num ` set (keys t))))
    \<and> lookup h Null x = Some (Inr Null)"
proof -
  from lookup_result[OF assms, of x] obtain r where
    r: "lookup h T x = Some (Inr r)"
       "r = Null \<or> (\<exists>a. r = Ref a \<and> a \<in> set (addrs t) \<and> key (h ! a) = x)" by blast
  have keys: "\<And>a. a \<in> set (addrs t) \<Longrightarrow> key (h ! a) \<in> Num ` set (keys t)"
    using assms by (rule heap_tree_keys)
  have "bst_le t \<longrightarrow> (r = Null) = (x \<notin> Num ` set (keys t))"
  proof
    assume b: "bst_le t"
    show "(r = Null) = (x \<notin> Num ` set (keys t))"
    proof
      assume "r = Null"
      then show "x \<notin> Num ` set (keys t)" using lookup_present[OF assms b] r(1) by auto
    next
      assume "x \<notin> Num ` set (keys t)"
      then show "r = Null" using r(2) keys by auto
    qed
  qed
  moreover have "lookup h Null x = Some (Inr Null)" by (subst lookup.simps) simp
  ultimately show ?thesis using r lookup_search[OF assms, of x] by blast
qed

text \<open>The theorem of C7 on the example tree, for a key that is present (7) and one that
  is absent (5).\<close>

theorem lookup_search_agree_witness:
  "heap_tree example_heap (Ref 0) example_shape \<and> bst_le example_shape
   \<and> lookup example_heap (Ref 0) (Num 7) = search example_heap (Ref 0) (Num 7)
   \<and> lookup example_heap (Ref 0) (Num 7) = Some (Inr (Ref 4))
   \<and> lookup example_heap (Ref 0) (Num 5) = search example_heap (Ref 0) (Num 5)
   \<and> lookup example_heap (Ref 0) (Num 5) = Some (Inr Null)"
proof -
  have t: "heap_tree example_heap (Ref 0) example_shape" by (rule example_heap_tree)
  have b: "bst_le example_shape" by code_simp
  have 1: "lookup example_heap (Ref 0) (Num 7) = Some (Inr (Ref 4))" by code_simp
  have 2: "lookup example_heap (Ref 0) (Num 5) = Some (Inr Null)" by code_simp
  show ?thesis
    using t b 1 2 lookup_search_agree[OF t, of "Num 7"] lookup_search_agree[OF t, of "Num 5"]
    by simp
qed


subsection \<open>Insertion\<close>

text \<open>The loop of \<open>insert\<close> ends at \<open>vlast_visited k s\<close>, and the assignment after it
  makes the heap hold \<open>vins n k s\<close>, for a key \<open>k\<close> that is any number. For an
  orderable key that is \<open>ins n k t\<close>.\<close>

lemma insert_loop_heap_struct:
  "heap_struct h T s \<Longrightarrow>
   insert_loop h T p k = Some (Inr (if s = Tip then p else Ref (vlast_visited k s)))"
proof (induction s arbitrary: T p)
  case Tip
  then show ?case by (subst insert_loop.simps) simp
next
  case (Fork l a x r)
  then show ?case by (subst insert_loop.simps) simp
qed

lemma vlast_visited_addrs: "s \<noteq> Tip \<Longrightarrow> vlast_visited k s \<in> set (addrs s)"
  by (induction s) auto

lemma addrs_vins: "set (addrs (vins n k s)) = insert n (set (addrs s))"
  by (induction s) auto

lemma distinct_vins: "distinct (addrs s) \<Longrightarrow> n \<notin> set (addrs s) \<Longrightarrow> distinct (addrs (vins n k s))"
  by (induction s) (auto simp: addrs_vins)

lemma vins_map_shape: "vins n (Num k) (map_shape Num t) = map_shape Num (ins n k t)"
  by (induction t) auto

lemma attach_other: "b \<noteq> p \<Longrightarrow> attach h p n k ! b = h ! b"
  by (simp add: attach_def)

lemma length_attach [simp]: "length (attach h p n k) = length h"
  by (simp add: attach_def)

lemma heap_struct_attach_other:
  "heap_struct h v s \<Longrightarrow> p \<notin> set (addrs s) \<Longrightarrow> heap_struct (attach h p n k) v s"
  by (simp add: attach_def heap_struct_update)

lemma heap_struct_attach:
  assumes "heap_struct h T s" "distinct (addrs s)" "s \<noteq> Tip" "n \<notin> set (addrs s)" "n < length h"
    "key (h ! n) = k" "left (h ! n) = Null" "right (h ! n) = Null"
  shows "heap_struct (attach h (vlast_visited k s) n k) T (vins n k s)"
  using assms
proof (induction s arbitrary: T)
  case Tip
  then show ?case by simp
next
  case (Fork l a x r)
  have Ta: "T = Ref a" and a: "a < length h" and ka: "key (h ! a) = x"
    and hl: "heap_struct h (left (h ! a)) l" and hr: "heap_struct h (right (h ! a)) r"
    using Fork.prems(1) by auto
  have na: "n \<noteq> a" using Fork.prems(4) by auto
  have al: "a \<notin> set (addrs l)" and ar: "a \<notin> set (addrs r)"
    and dl: "distinct (addrs l)" and dr: "distinct (addrs r)"
    and lr: "set (addrs l) \<inter> set (addrs r) = {}"
    using Fork.prems(2) by auto
  have leaf: "\<And>h'. n < length h' \<Longrightarrow> h' ! n = h ! n \<Longrightarrow> heap_struct h' (Ref n) (Fork Tip n k Tip)"
    using Fork.prems(6,7,8) by simp
  show ?case
  proof (cases "js_lt k x")
    case True
    show ?thesis
    proof (cases "l = Tip")
      case lt: True
      have "heap_struct (attach h a n k) (right (h ! a)) r"
        using hr ar by (rule heap_struct_attach_other)
      moreover have "heap_struct (attach h a n k) (Ref n) (Fork Tip n k Tip)"
        using Fork.prems(5) na by (intro leaf) (simp_all add: attach_other)
      ultimately show ?thesis using True lt Ta a ka
        by (simp add: attach_def)
    next
      case lf: False
      let ?p = "vlast_visited k l"
      have pl: "?p \<in> set (addrs l)" using lf by (rule vlast_visited_addrs)
      have pa: "a \<noteq> ?p" using pl al by auto
      have pr: "?p \<notin> set (addrs r)" using pl lr by auto
      have "heap_struct (attach h ?p n k) (left (h ! a)) (vins n k l)"
        using Fork.IH(1)[OF hl dl lf] Fork.prems(4,5,6,7,8) by simp
      moreover have "heap_struct (attach h ?p n k) (right (h ! a)) r"
        using hr pr by (rule heap_struct_attach_other)
      ultimately show ?thesis using True lf Ta a ka pa
        by (simp add: attach_other)
    qed
  next
    case False
    show ?thesis
    proof (cases "r = Tip")
      case rt: True
      have "heap_struct (attach h a n k) (left (h ! a)) l"
        using hl al by (rule heap_struct_attach_other)
      moreover have "heap_struct (attach h a n k) (Ref n) (Fork Tip n k Tip)"
        using Fork.prems(5) na by (intro leaf) (simp_all add: attach_other)
      ultimately show ?thesis using False rt Ta a ka
        by (simp add: attach_def)
    next
      case rf: False
      let ?p = "vlast_visited k r"
      have pl: "?p \<in> set (addrs r)" using rf by (rule vlast_visited_addrs)
      have pa: "a \<noteq> ?p" using pl ar by auto
      have pr: "?p \<notin> set (addrs l)" using pl lr by auto
      have "heap_struct (attach h ?p n k) (right (h ! a)) (vins n k r)"
        using Fork.IH(2)[OF hr dr rf] Fork.prems(4,5,6,7,8) by simp
      moreover have "heap_struct (attach h ?p n k) (left (h ! a)) l"
        using hl pr by (rule heap_struct_attach_other)
      ultimately show ?thesis using False rf Ta a ka pa
        by (simp add: attach_other)
    qed
  qed
qed

lemma insert_bst_heap_struct:
  assumes "heap_struct h T s" and "distinct (addrs s)" and "isNumber k"
  shows "\<exists>h'. insert_bst T k h = Some (Inr (if s = Tip then Ref (length h) else T), h')
          \<and> heap_struct h' (if s = Tip then Ref (length h) else T) (vins (length h) k s)
          \<and> length h' = Suc (length h)"
proof -
  let ?n = "length h"
  let ?h1 = "h @ [\<lparr>key = k, left = Null, right = Null, parent = Null\<rparr>]"
  have nt: "?n \<notin> set (addrs s)" using heap_struct_addrs[OF assms(1)] by auto
  have t1: "heap_struct ?h1 T s" using assms(1) by (rule heap_struct_append)
  have nn: "new_Node k Undefined Undefined h = (Inr (Ref ?n), ?h1)"
    using assms(3) by (simp add: new_Node_def)
  show ?thesis
  proof (cases "s = Tip")
    case True
    then have "T = Null" using assms(1) by simp
    then show ?thesis using True nn insert_loop_heap_struct[OF t1, of Null k]
      by (simp add: insert_bst_def)
  next
    case False
    let ?p = "vlast_visited k s"
    let ?h2 = "?h1[?n := parent_update (\<lambda>old. Ref ?p) (?h1 ! ?n)]"
    have pt: "?p \<in> set (addrs s)" using False by (rule vlast_visited_addrs)
    then have pn: "?p \<noteq> ?n" and plt: "?p < ?n" using nt heap_struct_addrs[OF assms(1)] by auto
    have t2: "heap_struct ?h2 T s" using t1 nt by (rule heap_struct_update)
    have t3: "heap_struct (attach ?h2 ?p ?n k) T (vins ?n k s)"
      using t2 assms(2) False nt by (rule heap_struct_attach) simp_all
    have TN: "T \<noteq> Null" using assms(1) False by auto
    have "insert_bst T k h = Some (Inr T, attach ?h2 ?p ?n k)"
      using False nn TN insert_loop_heap_struct[OF t1, of Null k]
      by (simp add: insert_bst_def attach_def)
    then show ?thesis using False t3 by simp
  qed
qed

lemma insert_bst_heap_tree:
  assumes "heap_tree h T t" and "distinct (addrs t)"
  shows "\<exists>h'. insert_bst T (Num k) h = Some (Inr (if t = Tip then Ref (length h) else T), h')
          \<and> heap_tree h' (if t = Tip then Ref (length h) else T) (ins (length h) k t)
          \<and> length h' = Suc (length h)"
  using insert_bst_heap_struct[of h T "map_shape Num t" "Num k"] assms
  by (simp add: heap_tree_struct vins_map_shape)

lemma addrs_ins: "set (addrs (ins n k t)) = insert n (set (addrs t))"
  by (induction t) auto

lemma distinct_ins: "distinct (addrs t) \<Longrightarrow> n \<notin> set (addrs t) \<Longrightarrow> distinct (addrs (ins n k t))"
  by (induction t) (auto simp: addrs_ins)

lemma mset_keys_ins: "mset (keys (ins n k t)) = add_mset k (mset (keys t))"
  by (induction t) auto

lemma set_keys_ins: "set (keys (ins n k t)) = insert k (set (keys t))"
  by (induction t) auto

lemma bst_le_ins: "bst_le t \<Longrightarrow> bst_le (ins n k t)"
  by (induction t) (auto simp: list_all_iff set_keys_ins)

lemma bst_le_sorted: "bst_le t \<Longrightarrow> sorted (keys t)"
proof (induction t)
  case Tip
  then show ?case by simp
next
  case (Fork l a k r)
  have "\<And>x y. x \<in> set (keys l) \<Longrightarrow> y \<in> set (keys r) \<Longrightarrow> x \<le> y"
  proof -
    fix x y assume "x \<in> set (keys l)" and "y \<in> set (keys r)"
    then have "x < k" and "k \<le> y" using Fork.prems by (auto simp: list_all_iff)
    then show "x \<le> y" by simp
  qed
  then show ?case using Fork by (auto simp: list_all_iff sorted_append intro: less_imp_le)
qed

lemma insert_bst_not_number:
  "\<not> isNumber k \<Longrightarrow> insert_bst T k h = Some (Inl TypeError, h)"
  by (simp add: insert_bst_def new_Node_def)

lemma insert_bst_returns:
  assumes "heap_struct h T s" and "distinct (addrs s)"
  shows "\<exists>res h'. insert_bst T k h = Some (res, h')
          \<and> (\<forall>T'. res = Inr T' \<longrightarrow> (\<exists>s'. heap_struct h' T' s' \<and> distinct (addrs s')))"
proof (cases "isNumber k")
  case True
  have nt: "length h \<notin> set (addrs s)" using heap_struct_addrs[OF assms(1)] by auto
  from insert_bst_heap_struct[OF assms True] obtain h' where
    "insert_bst T k h = Some (Inr (if s = Tip then Ref (length h) else T), h')"
    "heap_struct h' (if s = Tip then Ref (length h) else T) (vins (length h) k s)"
    by blast
  then show ?thesis using distinct_vins[OF assms(2) nt, of k]
    by (auto intro!: exI[of _ "vins (length h) k s"])
next
  case False
  then show ?thesis by (simp add: insert_bst_not_number)
qed

lemma insert_bst_tree_inv:
  assumes "tree_inv h T t"
  shows "\<exists>T' h' t'. insert_bst T (Num k) h = Some (Inr T', h') \<and> tree_inv h' T' t'
          \<and> mset (keys t') = add_mset k (mset (keys t))"
proof -
  from assms have ht: "heap_tree h T t" and d: "distinct (addrs t)" and b: "bst_le t"
    by (auto simp: tree_inv_def)
  have nt: "length h \<notin> set (addrs t)" using heap_tree_addrs[OF ht] by auto
  from insert_bst_heap_tree[OF ht d, of k] obtain h' where
    "insert_bst T (Num k) h = Some (Inr (if t = Tip then Ref (length h) else T), h')"
    "heap_tree h' (if t = Tip then Ref (length h) else T) (ins (length h) k t)"
    by blast
  then show ?thesis using distinct_ins[OF d nt] bst_le_ins[OF b] mset_keys_ins
    unfolding tree_inv_def by blast
qed

lemma insert_each_tree_inv:
  "tree_inv h T t \<Longrightarrow>
   \<exists>T' h' t'. insert_each T (map Num xs) h = Some (Inr T', h') \<and> tree_inv h' T' t'
     \<and> mset (keys t') = mset (keys t) + mset xs"
proof (induction xs arbitrary: h T t)
  case Nil
  then show ?case by auto
next
  case (Cons x xs)
  from insert_bst_tree_inv[OF Cons.prems, of x] obtain T1 h1 t1 where
    1: "insert_bst T (Num x) h = Some (Inr T1, h1)" "tree_inv h1 T1 t1"
       "mset (keys t1) = add_mset x (mset (keys t))" by blast
  from Cons.IH[OF 1(2)] obtain T' h' t' where
    2: "insert_each T1 (map Num xs) h1 = Some (Inr T', h')" "tree_inv h' T' t'"
       "mset (keys t') = mset (keys t1) + mset xs" by blast
  show ?case using 1 2 by auto
qed

lemma insert_each_append:
  "insert_each T (xs @ ys) h =
     (case insert_each T xs h of
        None \<Rightarrow> None
      | Some (Inl e, h1) \<Rightarrow> Some (Inl e, h1)
      | Some (Inr T1, h1) \<Rightarrow> insert_each T1 ys h1)"
  by (induction xs arbitrary: T h) (auto split: option.splits sum.splits prod.splits)

lemma tree_inv_sorted_keys:
  assumes "tree_inv h T t" and "mset (keys t) = mset xs"
  shows "toList h T = Some (Inr (map Num (sort xs)))"
proof -
  have "sorted (keys t)" using assms(1) by (simp add: tree_inv_def bst_le_sorted)
  then have "sort xs = keys t" using assms(2) by (metis properties_for_sort)
  then show ?thesis using assms(1) by (simp add: tree_inv_def toList_heap_tree)
qed

lemma tree_inv_Tip [simp]: "tree_inv h Null Tip"
  by (simp add: tree_inv_def)

lemma insert_each_tree_sort:
  "\<exists>T h'. insert_each Null (map Num xs) h = Some (Inr T, h')
      \<and> toList h' T = Some (Inr (map Num (sort xs)))
      \<and> inOrderWalk h' T (Function (\<lambda>k acc. acc @ [k])) [] = Some (Inr (), map Num (sort xs))"
proof -
  from insert_each_tree_inv[OF tree_inv_Tip, of xs h] obtain T h' t where
    1: "insert_each Null (map Num xs) h = Some (Inr T, h')" "tree_inv h' T t" "mset (keys t) = mset xs"
    by auto
  have "sorted (keys t)" using 1(2) by (simp add: tree_inv_def bst_le_sorted)
  then have s: "sort xs = keys t" using 1(3) by (metis properties_for_sort)
  have ht: "heap_tree h' T t" using 1(2) by (simp add: tree_inv_def)
  show ?thesis
    using 1(1) s toList_heap_tree[OF ht] inOrderWalk_heap_tree[OF ht, of "\<lambda>k acc. acc @ [k]" "[]"]
    by (simp add: fold_snoc)
qed

text \<open>
  \<^bold>\<open>C2\<close>. For every finite sequence \<open>xs\<close> of numeric keys and every heap, inserting
  the keys one by one with \<open>insert\<close> into the empty tree (\<^verbatim>\<open>null\<close>) returns a tree,
  and both \<open>toList\<close> and \<open>inOrderWalk\<close> with a visitor that appends each key it is
  given yield exactly \<open>sort xs\<close>. In particular the keys
  4, 3, 8, 1, 7, 16, 2, 10, 9, 14 yield 1, 2, 3, 4, 7, 8, 9, 10, 14, 16.
\<close>

theorem insert_each_sorted:
  "(\<exists>T h'. insert_each Null (map Num xs) h = Some (Inr T, h')
      \<and> toList h' T = Some (Inr (map Num (sort xs)))
      \<and> inOrderWalk h' T (Function (\<lambda>k acc. acc @ [k])) [] = Some (Inr (), map Num (sort xs)))
   \<and> (\<exists>T h'. insert_each Null (map Num [4, 3, 8, 1, 7, 16, 2, 10, 9, 14 :: int]) [] = Some (Inr T, h')
      \<and> toList h' T = Some (Inr (map Num [1, 2, 3, 4, 7, 8, 9, 10, 14, 16]))
      \<and> inOrderWalk h' T (Function (\<lambda>k acc. acc @ [k])) []
          = Some (Inr (), map Num [1, 2, 3, 4, 7, 8, 9, 10, 14, 16]))"
proof -
  have "sort [4, 3, 8, 1, 7, 16, 2, 10, 9, 14 :: int] = [1, 2, 3, 4, 7, 8, 9, 10, 14, 16]"
    by simp
  then show ?thesis
    using insert_each_tree_sort[of xs h]
      insert_each_tree_sort[of "[4, 3, 8, 1, 7, 16, 2, 10, 9, 14 :: int]" "[]"]
    by simp
qed


subsection \<open>Building a tree from an array\<close>

lemma fromList_NotArray [simp]:
  "fromList (NotArray v) h = Some (Inl TypeError, NotArray v, h)"
  by (subst fromList.simps) simp

lemma fromList_Nil [simp]: "fromList (Array []) h = Some (Inr Null, Array [], h)"
  by (subst fromList.simps) simp

lemma fromList_Cons [simp]:
  "fromList (Array (first # rest)) h =
     (case fromList (Array rest) h of
        None \<Rightarrow> None
      | Some (Inl e, X1, h1) \<Rightarrow> Some (Inl e, X1, h1)
      | Some (Inr T, X1, h1) \<Rightarrow>
          (case insert_bst T first h1 of
             None \<Rightarrow> None
           | Some (res, h2) \<Rightarrow> Some (res, X1, h2)))"
  by (subst fromList.simps) (simp split: option.splits sum.splits prod.splits)

lemma fromList_tree_inv:
  "\<exists>T h' t. fromList (Array (map Num xs)) h = Some (Inr T, Array [], h') \<and> tree_inv h' T t
     \<and> mset (keys t) = mset xs"
proof (induction xs)
  case Nil
  show ?case using tree_inv_Tip[of h] by (auto simp del: tree_inv_Tip)
next
  case (Cons x xs)
  then obtain T1 h1 t1 where
    1: "fromList (Array (map Num xs)) h = Some (Inr T1, Array [], h1)" "tree_inv h1 T1 t1"
       "mset (keys t1) = mset xs" by blast
  from insert_bst_tree_inv[OF 1(2), of x] obtain T' h' t' where
    2: "insert_bst T1 (Num x) h1 = Some (Inr T', h')" "tree_inv h' T' t'"
       "mset (keys t') = add_mset x (mset (keys t1))" by blast
  show ?case using 1 2 by auto
qed

text \<open>
  \<^bold>\<open>C3\<close>. For every finite sequence \<open>xs\<close> of numeric keys and every heap,
  \<open>fromList\<close> on the array of these keys returns a tree whose \<open>toList\<close> is
  \<open>sort xs\<close>; on the empty array it returns the empty tree, whose \<open>toList\<close> is
  the empty sequence.
\<close>

theorem fromList_toList:
  "(\<exists>T h'. fromList (Array (map Num xs)) h = Some (Inr T, Array [], h')
      \<and> toList h' T = Some (Inr (map Num (sort xs))))
   \<and> fromList (Array []) h = Some (Inr Null, Array [], h) \<and> toList h Null = Some (Inr [])"
proof -
  from fromList_tree_inv[of xs h] obtain T h' t where
    1: "fromList (Array (map Num xs)) h = Some (Inr T, Array [], h')" "tree_inv h' T t" "mset (keys t) = mset xs"
    by auto
  have "toList h Null = Some (Inr [])" by (subst toList.simps) simp
  then show ?thesis using 1(1) tree_inv_sorted_keys[OF 1(2,3)] by simp
qed

lemma fromList_returns:
  "\<exists>res h'. fromList (Array X) h = Some (res, Array [], h')
      \<and> (\<forall>T. res = Inr T \<longrightarrow> (\<exists>t. heap_struct h' T t \<and> distinct (addrs t)))"
proof (induction X)
  case Nil
  have "heap_struct h Null Tip \<and> distinct (addrs (Tip :: 'a val shape))" by simp
  then show ?case by auto
next
  case (Cons x X)
  then obtain res1 h1 where
    1: "fromList (Array X) h = Some (res1, Array [], h1)"
       "\<forall>T. res1 = Inr T \<longrightarrow> (\<exists>t. heap_struct h1 T t \<and> distinct (addrs t))" by blast
  show ?case
  proof (cases res1)
    case (Inl e)
    then show ?thesis using 1 by simp
  next
    case (Inr T1)
    then obtain t1 where t1: "heap_struct h1 T1 t1" "distinct (addrs t1)" using 1(2) by blast
    from insert_bst_returns[OF t1, of x] obtain res h' where
      "insert_bst T1 x h1 = Some (res, h')"
      "\<forall>T'. res = Inr T' \<longrightarrow> (\<exists>t'. heap_struct h' T' t' \<and> distinct (addrs t'))" by blast
    then show ?thesis using 1(1) Inr by simp
  qed
qed

text \<open>
  \<^bold>\<open>C10\<close>. \<open>fromList\<close> consumes its argument: for every array \<open>X\<close> (of any
  values) and every heap the call comes to an end, with a tree or with the TypeError of
  an element that is not a number, and the caller's array is empty afterwards.
\<close>

theorem fromList_empties_array:
  "\<exists>res h'. fromList (Array X) h = Some (res, Array [], h')"
  using fromList_returns[of X h] by blast

text \<open>What \<open>fromList\<close> computes: it takes the first element off, builds the tree of the
  rest, and inserts the first element last. It equals (result and heap) inserting the
  elements one by one from the last to the first, the right fold of \<open>insert\<close>.\<close>

lemma fromList_right_fold:
  "fromList (Array X) h =
     (case insert_each Null (rev X) h of
        None \<Rightarrow> None
      | Some (res, h') \<Rightarrow> Some (res, Array [], h'))"
proof (induction X)
  case Nil
  show ?case by simp
next
  case (Cons x X)
  show ?case
    by (simp add: Cons insert_each_append split: option.splits sum.splits prod.splits)
qed

text \<open>
  \<^bold>\<open>C8\<close>. On the array \<^verbatim>\<open>[1, 2]\<close> \<open>fromList\<close> does not return the left fold of
  \<open>insert\<close> over the input, which the comment above the function gives as its
  definition (\<^verbatim>\<open>fromList(X) = foldL(insert, \<phi>, X)\<close>): \<open>fromList\<close> returns the root
  2 with the left child 1, inserting the elements one by one from left to right returns
  the root 1 with the right child 2, and the two results differ.
\<close>

theorem fromList_not_left_fold:
  "fromList (Array [Num 1, Num (2::int)]) [] =
     Some (Inr (Ref 0), Array [],
       [\<lparr>key = Num 2, left = Ref 1, right = Null, parent = Null\<rparr>,
        \<lparr>key = Num 1, left = Null, right = Null, parent = Ref 0\<rparr>])
   \<and> insert_each Null [Num 1, Num (2::int)] [] =
     Some (Inr (Ref 0),
       [\<lparr>key = Num 1, left = Null, right = Ref 1, parent = Null\<rparr>,
        \<lparr>key = Num 2, left = Null, right = Null, parent = Ref 0\<rparr>])
   \<and> fromList (Array [Num 1, Num (2::int)]) [] \<noteq>
     (case insert_each Null [Num 1, Num (2::int)] [] of
        None \<Rightarrow> None
      | Some (res, h') \<Rightarrow> Some (res, Array [], h'))"
  by code_simp


subsection \<open>The constructor\<close>

text \<open>
  \<^bold>\<open>C9\<close>, as the code has it. \<^verbatim>\<open>new Node\<close> tests \<^verbatim>\<open>typeof key === 'number'\<close>:
  with a key of another type (\<^verbatim>\<open>undefined\<close>, \<^verbatim>\<open>null\<close>, an object) it raises a
  TypeError and leaves the heap as it was, and \<open>insert\<close> with such a key raises
  before it touches the tree; with a key of type number it allocates the node, for an
  orderable number and for \<^verbatim>\<open>NaN\<close> alike.
\<close>

theorem new_Node_type_check:
  "new_Node k l r h =
     (if typeof k = ''number''
      then (Inr (Ref (length h)),
            h @ [\<lparr>key = k, left = (if truthy l then l else Null),
                   right = (if truthy r then r else Null), parent = Null\<rparr>])
      else (Inl TypeError, h))
   \<and> new_Node Undefined l r h = (Inl TypeError, h)
   \<and> new_Node Null l r h = (Inl TypeError, h)
   \<and> new_Node (Ref a) l r h = (Inl TypeError, h)
   \<and> new_Node (Num n) l r h =
       (Inr (Ref (length h)),
        h @ [\<lparr>key = Num n, left = (if truthy l then l else Null),
               right = (if truthy r then r else Null), parent = Null\<rparr>])
   \<and> new_Node NaN l r h =
       (Inr (Ref (length h)),
        h @ [\<lparr>key = NaN, left = (if truthy l then l else Null),
               right = (if truthy r then r else Null), parent = Null\<rparr>])
   \<and> insert_bst T Undefined h = Some (Inl TypeError, h)
   \<and> insert_bst T Null h = Some (Inl TypeError, h)
   \<and> insert_bst T (Ref a) h = Some (Inl TypeError, h)"
  by (simp add: new_Node_def isNumber_def insert_bst_def)

text \<open>
  \<^bold>\<open>C9\<close>, as stated (a key that is not an orderable numeric value fails), fails on
  \<^verbatim>\<open>NaN\<close>: its type is number, it is neither smaller than, greater than nor equal to
  any number, itself included, and \<^verbatim>\<open>new Node(NaN)\<close> returns a node with that key.
\<close>

theorem new_Node_accepts_NaN:
  "typeof (NaN :: int val) = ''number''
   \<and> \<not> js_lt (NaN :: int val) NaN \<and> \<not> js_gt (NaN :: int val) NaN \<and> \<not> strict_eq (NaN :: int val) NaN
   \<and> \<not> js_lt (NaN :: int val) (Num 1) \<and> \<not> js_gt (NaN :: int val) (Num 1)
   \<and> \<not> strict_eq (NaN :: int val) (Num 1)
   \<and> new_Node (NaN :: int val) Undefined Undefined [] =
       (Inr (Ref 0), [\<lparr>key = NaN, left = Null, right = Null, parent = Null\<rparr>])"
  by (simp add: new_Node_def isNumber_def js_lt_def js_gt_def)

lemma new_Node_heap_tree:
  assumes "heap_tree h lv l" and "heap_tree h rv r"
  shows "new_Node (Num k) lv rv h =
           (Inr (Ref (length h)), h @ [\<lparr>key = Num k, left = lv, right = rv, parent = Null\<rparr>])
         \<and> heap_tree (h @ [\<lparr>key = Num k, left = lv, right = rv, parent = Null\<rparr>])
              (Ref (length h)) (Fork l (length h) k r)"
  using assms heap_tree_is_ptr[OF assms(1)] heap_tree_is_ptr[OF assms(2)]
  by (simp add: new_Node_def heap_tree_append)


subsection \<open>Minimum, maximum and deletion by value\<close>

lemma min_bst_heap_tree:
  "heap_tree h T t \<Longrightarrow>
   min_bst h T = Some (Inr (if t = Tip then Null else Num (hd (keys t))))"
proof (induction t arbitrary: T)
  case Tip
  then show ?case by (subst min_bst.simps) simp
next
  case (Fork l a k r)
  from Fork.prems have T: "T = Ref a" and hl: "heap_tree h (left (h ! a)) l"
    and ka: "key (h ! a) = Num k" by auto
  show ?case
  proof (cases "l = Tip")
    case True
    then show ?thesis using hl by (subst min_bst.simps) (simp add: T ka)
  next
    case False
    then have "keys l \<noteq> []" by (cases l) auto
    then show ?thesis using False Fork.IH(1)[OF hl] heap_tree_truthy[OF hl]
      by (subst min_bst.simps) (simp add: T)
  qed
qed

lemma max_bst_heap_tree:
  "heap_tree h T t \<Longrightarrow>
   max_bst h T = Some (Inr (if t = Tip then Null else Num (last (keys t))))"
proof (induction t arbitrary: T)
  case Tip
  then show ?case by (subst max_bst.simps) simp
next
  case (Fork l a k r)
  from Fork.prems have T: "T = Ref a" and hr: "heap_tree h (right (h ! a)) r"
    and ka: "key (h ! a) = Num k" by auto
  show ?case
  proof (cases "r = Tip")
    case True
    then show ?thesis using hr by (subst max_bst.simps) (simp add: T ka)
  next
    case False
    then have "keys r \<noteq> []" by (cases r) auto
    then show ?thesis using False Fork.IH(2)[OF hr] heap_tree_truthy[OF hr]
      by (subst max_bst.simps) (simp add: T)
  qed
qed

lemma bst_sorted: "bst t \<Longrightarrow> sorted_wrt (<) (keys t)"
proof (induction t)
  case Tip
  then show ?case by simp
next
  case (Fork l a k r)
  have "\<And>x y. x \<in> set (keys l) \<Longrightarrow> y \<in> set (keys r) \<Longrightarrow> x < y"
  proof -
    fix x y assume "x \<in> set (keys l)" and "y \<in> set (keys r)"
    then have "x < k" and "k < y" using Fork.prems by (auto simp: list_all_iff)
    then show "x < y" by simp
  qed
  then show ?case using Fork by (auto simp: list_all_iff sorted_wrt_append)
qed

lemma sorted_bst: "sorted_wrt (<) (keys t) \<Longrightarrow> bst t"
  by (induction t) (auto simp: list_all_iff sorted_wrt_append)

lemma deleteValue_heap_tree:
  "heap_tree h T t \<Longrightarrow> bst t \<Longrightarrow>
   \<exists>T' ext t'. deleteValue T (Num x) h = Some (Inr T', h @ ext)
      \<and> heap_tree (h @ ext) T' t' \<and> keys t' = remove1 x (keys t)"
proof (induction t arbitrary: T x h)
  case Tip
  then have "deleteValue T (Num x) h = Some (Inr Null, h @ [])"
    by (subst deleteValue.simps) simp
  moreover have "heap_tree (h @ []) Null Tip" by simp
  ultimately show ?case by (metis keys.simps(1) remove1.simps(1))
next
  case (Fork l a k r)
  from Fork.prems(1) have T: "T = Ref a" and a: "a < length h" and ka: "key (h ! a) = Num k"
    and hl: "heap_tree h (left (h ! a)) l" and hr: "heap_tree h (right (h ! a)) r" by auto
  from Fork.prems(2) have bl: "bst l" and br: "bst r"
    and lk: "\<And>y. y \<in> set (keys l) \<Longrightarrow> y < k" and rk: "\<And>y. y \<in> set (keys r) \<Longrightarrow> k < y"
    by (auto simp: list_all_iff)
  have knl: "k \<notin> set (keys l)" using lk by auto
  have knr: "k \<notin> set (keys r)" using rk by auto
  let ?lv = "left (h ! a)" and ?rv = "right (h ! a)"
  consider (lt) "x < k" | (gt) "k < x" | (eq) "x = k" by (metis less_linear)
  then show ?case
  proof cases
    case lt
    from Fork.IH(1)[OF hl bl, of x] obtain T1 ext t1 where
      1: "deleteValue ?lv (Num x) h = Some (Inr T1, h @ ext)"
         "heap_tree (h @ ext) T1 t1" "keys t1 = remove1 x (keys l)" by blast
    let ?h1 = "h @ ext"
    let ?nd = "\<lparr>key = Num k, left = T1, right = ?rv, parent = Null\<rparr>"
    have hr1: "heap_tree ?h1 ?rv r" using hr by (rule heap_tree_append)
    have rd: "right (?h1 ! a) = ?rv" using a by (simp add: nth_append)
    from new_Node_heap_tree[OF 1(2) hr1, of k]
    have nn: "new_Node (Num k) T1 ?rv ?h1 = (Inr (Ref (length ?h1)), ?h1 @ [?nd])"
      and nt: "heap_tree (?h1 @ [?nd]) (Ref (length ?h1)) (Fork t1 (length ?h1) k r)" by auto
    have dv: "deleteValue T (Num x) h = Some (Inr (Ref (length ?h1)), h @ (ext @ [?nd]))"
      using lt 1(1) nn rd by (subst deleteValue.simps) (simp add: T ka)
    have xr: "x \<notin> set (keys r)" using rk[of x] lt by auto
    have "keys (Fork t1 (length ?h1) k r) = remove1 x (keys (Fork l a k r))"
      using 1(3) lt xr by (auto simp: remove1_append remove1_idem)
    then show ?thesis using dv nt by (metis append.assoc)
  next
    case gt
    from Fork.IH(2)[OF hr br, of x] obtain T1 ext t1 where
      1: "deleteValue ?rv (Num x) h = Some (Inr T1, h @ ext)"
         "heap_tree (h @ ext) T1 t1" "keys t1 = remove1 x (keys r)" by blast
    let ?h1 = "h @ ext"
    let ?nd = "\<lparr>key = Num k, left = ?lv, right = T1, parent = Null\<rparr>"
    have hl1: "heap_tree ?h1 ?lv l" using hl by (rule heap_tree_append)
    from new_Node_heap_tree[OF hl1 1(2), of k]
    have nn: "new_Node (Num k) ?lv T1 ?h1 = (Inr (Ref (length ?h1)), ?h1 @ [?nd])"
      and nt: "heap_tree (?h1 @ [?nd]) (Ref (length ?h1)) (Fork l (length ?h1) k t1)" by auto
    have dv: "deleteValue T (Num x) h = Some (Inr (Ref (length ?h1)), h @ (ext @ [?nd]))"
      using gt 1(1) nn not_less_iff_gr_or_eq[of x k] by (subst deleteValue.simps) (simp add: T ka)
    have xl: "x \<notin> set (keys l)" using lk[of x] gt by auto
    have "keys (Fork l (length ?h1) k t1) = remove1 x (keys (Fork l a k r))"
      using 1(3) gt xl by (auto simp: remove1_append remove1_idem)
    then show ?thesis using dv nt by (metis append.assoc)
  next
    case eq
    show ?thesis
    proof (cases "l = Tip")
      case True
      then have "deleteValue T (Num x) h = Some (Inr ?rv, h @ [])"
        using eq hl by (subst deleteValue.simps) (simp add: T ka)
      moreover have "heap_tree (h @ []) ?rv r" using hr by simp
      moreover have "keys r = remove1 x (keys (Fork l a k r))" using True eq by simp
      ultimately show ?thesis by blast
    next
      case lf: False
      show ?thesis
      proof (cases "r = Tip")
        case True
        then have "deleteValue T (Num x) h = Some (Inr ?lv, h @ [])"
          using eq hl hr lf heap_tree_truthy[OF hl] by (subst deleteValue.simps) (simp add: T ka)
        moreover have "heap_tree (h @ []) ?lv l" using hl by simp
        moreover have "keys l = remove1 x (keys (Fork l a k r))"
          using True eq knl by (simp add: remove1_append remove1_idem)
        ultimately show ?thesis by blast
      next
        case rf: False
        let ?m = "hd (keys r)"
        have kr: "keys r \<noteq> []" using rf by (cases r) auto
        have mn: "min_bst h ?rv = Some (Inr (Num ?m))"
          using min_bst_heap_tree[OF hr] rf by simp
        from Fork.IH(2)[OF hr br, of ?m] obtain T1 ext t1 where
          1: "deleteValue ?rv (Num ?m) h = Some (Inr T1, h @ ext)"
             "heap_tree (h @ ext) T1 t1" "keys t1 = remove1 ?m (keys r)" by blast
        let ?h1 = "h @ ext"
        let ?nd = "\<lparr>key = Num ?m, left = ?lv, right = T1, parent = Null\<rparr>"
        have hl1: "heap_tree ?h1 ?lv l" using hl by (rule heap_tree_append)
        from new_Node_heap_tree[OF hl1 1(2), of ?m]
        have nn: "new_Node (Num ?m) ?lv T1 ?h1 = (Inr (Ref (length ?h1)), ?h1 @ [?nd])"
          and nt: "heap_tree (?h1 @ [?nd]) (Ref (length ?h1)) (Fork l (length ?h1) ?m t1)" by auto
        have dv: "deleteValue T (Num x) h = Some (Inr (Ref (length ?h1)), h @ (ext @ [?nd]))"
          using eq 1(1) nn mn lf rf heap_tree_truthy[OF hl] heap_tree_truthy[OF hr]
          by (subst deleteValue.simps) (simp add: T ka)
        have "remove1 ?m (keys r) = tl (keys r)" using kr by (cases "keys r") auto
        then have "?m # keys t1 = keys r" using 1(3) kr by simp
        then have "keys (Fork l (length ?h1) ?m t1) = remove1 x (keys (Fork l a k r))"
          using eq knl by (simp add: remove1_append remove1_idem)
        then show ?thesis using dv nt by (metis append.assoc)
      qed
    qed
  qed
qed

text \<open>
  \<^bold>\<open>C4\<close>. Let \<open>T\<close> be a tree in the heap with the BST invariant (keys of a left
  subtree smaller, keys of a right subtree greater than the key of the node) and \<open>k\<close>
  a number. Then \<open>deleteValue\<close> returns a tree, with no error, that has the BST
  invariant. When \<open>k\<close> is a key of \<open>T\<close> the result has one node less, and its keys are
  those of \<open>T\<close> without \<open>k\<close>; when it is not, the in-order sequence of the result is
  that of \<open>T\<close>.
\<close>

theorem deleteValue_bst:
  assumes "heap_tree h T t" and "bst t"
  shows "\<exists>T' h' t'. deleteValue T (Num k) h = Some (Inr T', h') \<and> heap_tree h' T' t' \<and> bst t'
     \<and> (if k \<in> set (keys t)
         then Suc (length (keys t')) = length (keys t) \<and> set (keys t') = set (keys t) - {k}
         else toList h' T' = toList h T \<and> toList h T = Some (Inr (map Num (keys t))))"
proof -
  from deleteValue_heap_tree[OF assms, of k] obtain T' ext t' where
    1: "deleteValue T (Num k) h = Some (Inr T', h @ ext)" "heap_tree (h @ ext) T' t'"
       "keys t' = remove1 k (keys t)" by blast
  have s: "sorted_wrt (<) (keys t)" using assms(2) by (rule bst_sorted)
  then have "sorted_wrt (<) (keys t')" unfolding 1(3)
    by (simp add: strict_sorted_iff sorted_remove1)
  then have b: "bst t'" by (rule sorted_bst)
  have d: "distinct (keys t)" using s by (simp add: strict_sorted_iff)
  show ?thesis
  proof (cases "k \<in> set (keys t)")
    case True
    then have "Suc (length (keys t')) = length (keys t)"
      unfolding 1(3) by (simp add: length_remove1) (metis length_pos_if_in_set Suc_pred)
    moreover have "set (keys t') = set (keys t) - {k}" unfolding 1(3) using d by simp
    ultimately show ?thesis using 1 b True by auto
  next
    case False
    then have "keys t' = keys t" unfolding 1(3) by (simp add: remove1_idem)
    then have "toList (h @ ext) T' = toList h T"
      using toList_heap_tree[OF 1(2)] toList_heap_tree[OF assms(1)] by simp
    then show ?thesis using 1 b False toList_heap_tree[OF assms(1)] by auto
  qed
qed

text \<open>The theorem of C4 on the example tree, for a key that is present (8, at a node with
  two children) and one that is absent (5).\<close>

theorem deleteValue_bst_witness:
  "heap_tree example_heap (Ref 0) example_shape \<and> bst example_shape
   \<and> 8 \<in> set (keys example_shape) \<and> 5 \<notin> set (keys example_shape)
   \<and> (\<exists>T' h' t'. deleteValue (Ref 0) (Num 8) example_heap = Some (Inr T', h')
          \<and> heap_tree h' T' t' \<and> bst t' \<and> length (keys t') = 9
          \<and> toList h' T' = Some (Inr (map Num [1, 2, 3, 4, 7, 9, 10, 14, 16])))
   \<and> (\<exists>T' h' t'. deleteValue (Ref 0) (Num 5) example_heap = Some (Inr T', h')
          \<and> heap_tree h' T' t' \<and> bst t'
          \<and> toList h' T' = Some (Inr (map Num [1, 2, 3, 4, 7, 8, 9, 10, 14, 16])))"
proof -
  have t: "heap_tree example_heap (Ref 0) example_shape" by (rule example_heap_tree)
  have b: "bst example_shape" by (rule example_bst)
  have k: "keys example_shape = [1, 2, 3, 4, 7, 8, 9, 10, 14, 16]"
    by (simp add: example_shape_def)
  from deleteValue_bst[OF t b, of 8] obtain T1 h1 t1 where
    1: "deleteValue (Ref 0) (Num 8) example_heap = Some (Inr T1, h1)" "heap_tree h1 T1 t1" "bst t1"
       "Suc (length (keys t1)) = length (keys example_shape)"
    unfolding k by auto
  have "(case deleteValue (Ref 0) (Num 8) example_heap of
           Some (Inr T', h') \<Rightarrow> toList h' T' | _ \<Rightarrow> None)
        = Some (Inr (map Num [1, 2, 3, 4, 7, 9, 10, 14, 16]))"
    by code_simp
  then have 2: "toList h1 T1 = Some (Inr (map Num [1, 2, 3, 4, 7, 9, 10, 14, 16]))"
    using 1(1) by simp
  from deleteValue_bst[OF t b, of 5] obtain T2 h2 t2 where
    3: "deleteValue (Ref 0) (Num 5) example_heap = Some (Inr T2, h2)" "heap_tree h2 T2 t2" "bst t2"
       "toList h2 T2 = Some (Inr (map Num (keys example_shape)))"
    unfolding k by auto
  show ?thesis using t b 1 2 3 unfolding k by auto
qed


subsection \<open>Successor, predecessor and deletion by node\<close>

text \<open>\<open>min\<close> and \<open>max\<close> return a key. \<open>succ\<close>, \<open>pred\<close> and \<open>deleteNode\<close> use the
  result where a node is needed: on every tree in the heap, \<open>succ\<close> of a node with a
  right child and \<open>pred\<close> of a node with a left child are numbers, \<open>succ\<close> and
  \<open>pred\<close> of a number are \<^verbatim>\<open>undefined\<close>, and \<open>deleteNode\<close> of a node with two
  children overwrites its key with \<^verbatim>\<open>undefined\<close> and raises.\<close>

lemma succ_right_child_is_key:
  assumes "heap_tree h x (Fork l a k r)" and "r \<noteq> Tip"
  shows "succ h x = Some (Inr (Num (hd (keys r))))"
proof -
  from assms(1) have x: "x = Ref a" and hr: "heap_tree h (right (h ! a)) r" by auto
  show ?thesis
    using assms(2) min_bst_heap_tree[OF hr] heap_tree_truthy[OF hr]
    by (simp add: succ_def x)
qed

lemma pred_left_child_is_key:
  assumes "heap_tree h x (Fork l a k r)" and "l \<noteq> Tip"
  shows "pred h x = Some (Inr (Num (last (keys l))))"
proof -
  from assms(1) have x: "x = Ref a" and hl: "heap_tree h (left (h ! a)) l" by auto
  show ?thesis
    using assms(2) max_bst_heap_tree[OF hl] heap_tree_truthy[OF hl]
    by (simp add: pred_def x)
qed

lemma succ_of_number: "succ h (Num n) = Some (Inr Undefined)"
  by (simp add: succ_def) (subst succ_loop.simps, simp)

lemma pred_of_number: "pred h (Num n) = Some (Inr Undefined)"
  by (simp add: pred_def) (subst pred_loop.simps, simp)

lemma deleteNode_two_children_TypeError:
  assumes "heap_tree h x (Fork l a k r)" and "l \<noteq> Tip" and "r \<noteq> Tip"
  shows "deleteNode T x h = Some (Inl TypeError, h[a := (h ! a)\<lparr>key := Undefined\<rparr>])"
proof -
  from assms(1) have x: "x = Ref a" and hl: "heap_tree h (left (h ! a)) l"
    and hr: "heap_tree h (right (h ! a)) r" by auto
  show ?thesis
    using assms(2,3) min_bst_heap_tree[OF hr] heap_tree_truthy[OF hr] heap_tree_truthy[OF hl]
    by (simp add: deleteNode_def x)
qed

text \<open>
  \<^bold>\<open>C1\<close>. On the tree built from 4, 3, 8, 1, 7, 16, 2, 10, 9, 14, \<open>deleteNode\<close>
  with the node of key 8 (reference 2, both children present) does not return a tree:
  \<^verbatim>\<open>min(x.right)\<close> is the key 9, a number, so \<^verbatim>\<open>y.key\<close> is \<^verbatim>\<open>undefined\<close>
  and overwrites the key 8, \<^verbatim>\<open>y.parent\<close> is \<^verbatim>\<open>undefined\<close>, and the
  assignment to \<^verbatim>\<open>y.parent.left\<close> raises a TypeError. The in-order sequence of the
  heap it leaves is 1, 2, 3, 4, 7, \<^verbatim>\<open>undefined\<close>, 9, 10, 14, 16.
\<close>

theorem deleteNode_two_children_throws:
  "insert_each Null (map Num example_keys) [] = Some (Inr (Ref 0), example_heap)
   \<and> getp key example_heap (Ref 2) = Inr (Num 8)
   \<and> deleteNode (Ref 0) (Ref 2) example_heap =
       Some (Inl TypeError, example_heap[2 := (example_heap ! 2)\<lparr>key := Undefined\<rparr>])
   \<and> toList (example_heap[2 := (example_heap ! 2)\<lparr>key := Undefined\<rparr>]) (Ref 0) =
       Some (Inr [Num 1, Num 2, Num 3, Num 4, Num 7, Undefined, Num 9, Num 10, Num 14, Num 16])"
  by code_simp

text \<open>
  \<^bold>\<open>C5\<close>. In the same tree, \<open>succ\<close> of the node of key 8, which has a right
  child, is the number 9 (what \<open>min\<close> returns), not the node that holds 9
  (reference 8). For a node without a right child it is a node or \<^verbatim>\<open>null\<close>: the
  node of key 3 for the node of key 2, \<^verbatim>\<open>null\<close> for the node of key 16.
\<close>

theorem succ_returns_bare_key:
  "getp key example_heap (Ref 2) = Inr (Num 8)
   \<and> getp right example_heap (Ref 2) = Inr (Ref 5)
   \<and> succ example_heap (Ref 2) = Some (Inr (Num 9))
   \<and> getp key example_heap (Ref 8) = Inr (Num 9)
   \<and> succ example_heap (Ref 6) = Some (Inr (Ref 1))
   \<and> succ example_heap (Ref 5) = Some (Inr Null)"
  by code_simp

text \<open>
  \<^bold>\<open>C6\<close>. In the same tree, \<open>pred\<close> of \<open>succ\<close> of a node is not that node: for
  the node of key 8 the successor is the number 9 and \<open>pred\<close> of it is
  \<^verbatim>\<open>undefined\<close>; for the node of key 2 the successor is the node of key 3 and
  \<open>pred\<close> of it is the number 2. \<open>succ\<close> of the node of the largest key and
  \<open>pred\<close> of the node of the smallest key are \<^verbatim>\<open>null\<close>.
\<close>

theorem pred_of_succ_is_not_the_node:
  "succ example_heap (Ref 2) = Some (Inr (Num 9))
   \<and> pred example_heap (Num 9) = Some (Inr Undefined)
   \<and> succ example_heap (Ref 6) = Some (Inr (Ref 1))
   \<and> pred example_heap (Ref 1) = Some (Inr (Num 2))
   \<and> succ example_heap (Ref 5) = Some (Inr Null)
   \<and> pred example_heap (Ref 3) = Some (Inr Null)"
  by code_simp

end
